theory Spec2Isabelle
  imports Main "HOL-Library.Product_Lexorder"
begin

section \<open>Characters and lines\<close>

text \<open>
  The module is Python 2 code: the text it filters is a byte string, so a character is a
  \<^typ>\<open>char\<close> and a string a \<^typ>\<open>string\<close>.
\<close>

definition newline :: char where
  "newline = CHR 0x0A"

definition is_upper :: "char \<Rightarrow> bool" where
  "is_upper c = (65 \<le> (of_char c :: nat) \<and> (of_char c :: nat) \<le> 90)"

text \<open>
  Under \<^verbatim>\<open>(?i)\<close> the \<^verbatim>\<open>re\<close> module of Python 2 compares byte strings after
  lower-casing the ASCII letters of both sides.
\<close>

definition lower_ascii :: "char \<Rightarrow> char" where
  "lower_ascii c = (if is_upper c then char_of ((of_char c :: nat) + 32) else c)"

definition chr_eq :: "bool \<Rightarrow> char \<Rightarrow> char \<Rightarrow> bool" where
  "chr_eq ci c x = (if ci then lower_ascii c = lower_ascii x else c = x)"

definition ascii_letter :: "char \<Rightarrow> bool" where
  "ascii_letter c =
     ((97 \<le> (of_char c :: nat) \<and> (of_char c :: nat) \<le> 122) \<or>
      (65 \<le> (of_char c :: nat) \<and> (of_char c :: nat) \<le> 90))"

text \<open>
  The lines of a text are its pieces between newlines, as \<^verbatim>\<open>text.split('\n')\<close> gives
  them: a text that ends with a newline has the empty string as its last piece.
  \<open>unlines\<close> writes lines out again, a newline after each.
\<close>

primrec split_nl :: "string \<Rightarrow> string list" where
  "split_nl [] = [[]]"
| "split_nl (c # cs) =
     (if c = newline then [] # split_nl cs
      else (case split_nl cs of [] \<Rightarrow> [[c]] | l # ls \<Rightarrow> (c # l) # ls))"

definition unlines :: "string list \<Rightarrow> string" where
  "unlines ls = concat (map (\<lambda>l. l @ [newline]) ls)"

section \<open>The regular expressions of the module\<close>

text \<open>
  The patterns of \<^verbatim>\<open>puppet.py\<close> use literal characters, \<^verbatim>\<open>.*\<close>, two bracket
  sets, the flag \<^verbatim>\<open>(?i)\<close> and one leading \<^verbatim>\<open>^\<close>. An item is one of the
  first three; the flag and the anchor are arguments of the functions below.
\<close>

datatype re_item =
    Lit char
  | Dot_star
  | Char_set "(char \<times> char) list"

definition in_set :: "(char \<times> char) list \<Rightarrow> char \<Rightarrow> bool" where
  "in_set rs x =
     list_ex (\<lambda>(lo, hi). (of_char lo :: nat) \<le> of_char x \<and> (of_char x :: nat) \<le> of_char hi) rs"

text \<open>
  \<open>star_try f s k\<close> is the backtracking of a greedy \<^verbatim>\<open>.*\<close>: it lets the star take
  \<open>k\<close> characters, then \<open>k - 1\<close>, down to none, and stops at the first length after
  which the rest of the pattern (\<open>f\<close>) matches.
\<close>

primrec star_try :: "(string \<Rightarrow> nat option) \<Rightarrow> string \<Rightarrow> nat \<Rightarrow> nat option" where
  "star_try f s 0 = f s"
| "star_try f s (Suc k) =
     (case f (drop (Suc k) s) of
        Some m \<Rightarrow> Some (Suc k + m)
      | None \<Rightarrow> star_try f s k)"

text \<open>
  \<open>match_here its ci s\<close> is the length of the match of the items \<open>its\<close> at the start of
  \<open>s\<close>, as the backtracking matcher finds it, or \<open>None\<close>. A dot matches every
  character but the newline (no \<^verbatim>\<open>DOTALL\<close> flag is set anywhere in the module).
\<close>

primrec match_here :: "re_item list \<Rightarrow> bool \<Rightarrow> string \<Rightarrow> nat option" where
  "match_here [] = (\<lambda>ci s. Some 0)"
| "match_here (it # its) = (\<lambda>ci s.
     case it of
       Lit c \<Rightarrow>
         (case s of
            [] \<Rightarrow> None
          | x # xs \<Rightarrow> if chr_eq ci c x then map_option Suc (match_here its ci xs) else None)
     | Char_set rs \<Rightarrow>
         (case s of
            [] \<Rightarrow> None
          | x # xs \<Rightarrow> if in_set rs x then map_option Suc (match_here its ci xs) else None)
     | Dot_star \<Rightarrow>
         star_try (match_here its ci) s (length (takeWhile (\<lambda>x. x \<noteq> newline) s)))"

text \<open>
  \<^verbatim>\<open>re.search\<close>: the first position where the pattern matches. A pattern that
  starts with \<^verbatim>\<open>^\<close> (and no \<^verbatim>\<open>MULTILINE\<close>) can only match at position 0.
\<close>

fun search_from :: "re_item list \<Rightarrow> bool \<Rightarrow> string \<Rightarrow> bool" where
  "search_from its ci [] = (match_here its ci [] \<noteq> None)"
| "search_from its ci (x # xs) =
     (match_here its ci (x # xs) \<noteq> None \<or> search_from its ci xs)"

definition re_search :: "bool \<Rightarrow> re_item list \<Rightarrow> bool \<Rightarrow> string \<Rightarrow> bool" where
  "re_search anchored its ci s =
     (if anchored then match_here its ci s \<noteq> None else search_from its ci s)"

text \<open>
  \<^verbatim>\<open>re.sub\<close>: the text is scanned from the left; where the pattern matches, the match
  is replaced and the scan goes on behind it, elsewhere the character is copied. Every
  pattern that \<^verbatim>\<open>puppet.py\<close> passes to \<^verbatim>\<open>re.sub\<close> holds a literal character, so
  none of them has an empty match (\<open>sanitize_patterns_nonempty\<close> below), and the rule of
  \<^verbatim>\<open>re.sub\<close> for empty matches is not modelled: such a match is passed over.
\<close>

lemma star_try_length:
  assumes "\<And>t m. f t = Some m \<Longrightarrow> m \<le> length t" and "k \<le> length s"
    and "star_try f s k = Some m"
  shows "m \<le> length s"
  using assms(2,3)
proof (induction k)
  case 0
  then show ?case using assms(1) by simp
next
  case (Suc k)
  show ?case
  proof (cases "f (drop (Suc k) s)")
    case None
    with Suc show ?thesis by simp
  next
    case (Some m')
    with Suc.prems have "m = Suc k + m'"
      by simp
    moreover from assms(1) [OF Some] have "m' \<le> length s - Suc k"
      by simp
    ultimately show ?thesis
      using Suc.prems(1) by simp
  qed
qed

lemma match_here_length: "match_here its ci s = Some m \<Longrightarrow> m \<le> length s"
proof (induction its arbitrary: s m)
  case Nil
  then show ?case by simp
next
  case (Cons it its)
  show ?case
  proof (cases it)
    case (Lit c)
    with Cons show ?thesis
      by (cases s) (auto split: if_splits)
  next
    case Dot_star
    have "star_try (match_here its ci) s (length (takeWhile (\<lambda>x. x \<noteq> newline) s)) = Some m"
      using Cons.prems Dot_star by simp
    moreover have "length (takeWhile (\<lambda>x. x \<noteq> newline) s) \<le> length s"
      by (rule length_takeWhile_le)
    ultimately show ?thesis
      using Cons.IH star_try_length [of "match_here its ci"] by blast
  next
    case (Char_set rs)
    with Cons show ?thesis
      by (cases s) (auto split: if_splits)
  qed
qed

function re_sub :: "re_item list \<Rightarrow> bool \<Rightarrow> string \<Rightarrow> string \<Rightarrow> string" where
  "re_sub its ci repl s =
     (case match_here its ci s of
        Some (Suc k) \<Rightarrow> repl @ re_sub its ci repl (drop (Suc k) s)
      | _ \<Rightarrow> (case s of [] \<Rightarrow> [] | c # cs \<Rightarrow> c # re_sub its ci repl cs))"
  by pat_completeness auto
termination
  by (relation "measure (\<lambda>(its, ci, repl, s). length s)") (auto dest: match_here_length)

declare re_sub.simps [simp del]

section \<open>Puppet\<close>

subsection \<open>puppet_status: the filter of the agent's output\<close>

text \<open>
  Lines 87 to 91 of \<^verbatim>\<open>puppet_status\<close>. The four patterns are
  \<^verbatim>\<open>(?i)Info:.*\n\<close>, \<^verbatim>\<open>(?i)Notice: Ignoring --listen on onetime run\n\<close>,
  \<^verbatim>\<open>.*default_db.*\<close> and \<^verbatim>\<open>.*password.*\<close>; the last two carry no flag.
\<close>

definition info_pattern :: "re_item list" where
  "info_pattern = map Lit ''Info:'' @ [Dot_star, Lit newline]"

definition notice :: string where
  "notice = ''Notice: Ignoring --listen on onetime run''"

definition notice_pattern :: "re_item list" where
  "notice_pattern = map Lit notice @ [Lit newline]"

definition word_pattern :: "string \<Rightarrow> re_item list" where
  "word_pattern w = [Dot_star] @ map Lit w @ [Dot_star]"

definition filtered :: string where
  "filtered = ''************Password filtered out************''"

definition sanitize :: "string \<Rightarrow> string" where
  "sanitize stdout =
     (let stdout = re_sub info_pattern True [] stdout;
          stdout = re_sub notice_pattern True [] stdout;
          stdout = re_sub (word_pattern ''default_db'') False filtered stdout;
          stdout = re_sub (word_pattern ''password'') False filtered stdout
      in stdout)"

text \<open>
  \<^verbatim>\<open>puppet_status\<close> itself: \<open>run_command\<close> stands for the result (exit code, stdout,
  stderr) of the agent, which only the state \<^verbatim>\<open>run\<close> filters.
\<close>

definition puppet_status :: "string \<Rightarrow> int \<times> string \<times> string \<Rightarrow> int \<times> string \<times> string" where
  "puppet_status state run_command =
     (case run_command of (rc, stdout, stderr) \<Rightarrow>
        if state = ''run'' then (rc, sanitize stdout, stderr) else (rc, stdout, stderr))"

section \<open>Rpmdatabase\<close>

subsection \<open>rpm: the installed packages\<close>

text \<open>
  A header of the package database, with the three tags \<^verbatim>\<open>rpm\<close> reads. The
  database is \<open>None\<close> when \<^verbatim>\<open>rpm.TransactionSet()\<close> or \<^verbatim>\<open>dbMatch()\<close> raises,
  and otherwise the headers in the order the match iterator yields them.
\<close>

record header =
  name :: string
  version :: string
  release :: string

datatype error = DatabaseUnavailable

text \<open>\<^verbatim>\<open>"%s-%s-%s" % (h['name'], h['version'], h['release'])\<close>\<close>

definition nvr :: "header \<Rightarrow> string" where
  "nvr h = name h @ ''-'' @ version h @ ''-'' @ release h"

definition rpm :: "header list option \<Rightarrow> error + string list" where
  "rpm db =
     (case db of
        None \<Rightarrow> Inl DatabaseUnavailable
      | Some mi \<Rightarrow> Inr (foldl (\<lambda>rpmlist h. rpmlist @ [nvr h]) [] mi))"

subsection \<open>formatdiff: the report\<close>

definition seperator :: string where
  "seperator =
     ''================================================================================'' @ [newline]"

definition diffheader :: string where
  "diffheader = ''This is the RPM delta'' @ [newline]"

text \<open>\<^verbatim>\<open>re.search("^[-|+][a-zA-Z].*", line)\<close>\<close>

definition found :: "string \<Rightarrow> bool" where
  "found line =
     re_search True
       [Char_set [(CHR ''-'', CHR ''-''), (CHR ''|'', CHR ''|''), (CHR ''+'', CHR ''+'')],
        Char_set [(CHR ''a'', CHR ''z''), (CHR ''A'', CHR ''Z'')],
        Dot_star]
       False line"

text \<open>The loop of \<^verbatim>\<open>formatdiff\<close>: the text it has built after the lines \<open>rpmdiff\<close>.\<close>

definition diff_body :: "string list \<Rightarrow> string" where
  "diff_body rpmdiff =
     foldl (\<lambda>text line. if found line then text @ line @ [newline] else text) [] rpmdiff"

definition formatdiff :: "string list \<Rightarrow> string" where
  "formatdiff rpmdiff = seperator @ diffheader @ diff_body rpmdiff @ seperator"

section \<open>difflib\<close>

text \<open>
  Modelled from the spec: \<^verbatim>\<open>difflib.unified_diff\<close>, which \<^verbatim>\<open>main\<close> calls at line 153,
  belongs to the Python standard library and is not among the sources. The spec (4.3)
  describes it as a unified line diff of the two snapshots with zero context lines and no
  line terminators, which reports the lines outside the matching blocks, \<open>-\<close> lines
  before \<open>+\<close> lines within a hunk, under hunk-range headers. The definitions of this
  section follow the standard library's algorithm for that call, function by function:
  \<^verbatim>\<open>SequenceMatcher(None, a, b)\<close> (no junk function, the automatic junk heuristic on),
  \<^verbatim>\<open>find_longest_match\<close>, \<^verbatim>\<open>get_matching_blocks\<close>, \<^verbatim>\<open>get_opcodes\<close>,
  \<^verbatim>\<open>get_grouped_opcodes\<close> and \<^verbatim>\<open>unified_diff\<close> with empty file names and dates.
\<close>

subsection \<open>SequenceMatcher\<close>

definition chain_b :: "'a list \<Rightarrow> ('a \<rightharpoonup> nat list)" where
  "chain_b b =
     (let b2j = foldl (\<lambda>b2j (i, elt).
                   b2j(elt \<mapsto> (case b2j elt of None \<Rightarrow> [] | Some indices \<Rightarrow> indices) @ [i]))
                 Map.empty (enumerate 0 b);
          n = length b
      in if n \<ge> 200
         then (let ntest = n div 100 + 1
               in (\<lambda>elt. case b2j elt of
                     None \<Rightarrow> None
                   | Some idxs \<Rightarrow> if length idxs > ntest then None else Some idxs))
         else b2j)"

definition isbjunk :: "'a \<Rightarrow> bool" where
  "isbjunk elt = False"

definition j2lenget :: "(nat \<rightharpoonup> nat) \<Rightarrow> nat \<Rightarrow> nat" where
  "j2lenget j2len j = (if j = 0 then 0 else case j2len (j - 1) of None \<Rightarrow> 0 | Some k \<Rightarrow> k)"

type_synonym match = "nat \<times> nat \<times> nat"

fun inner_loop ::
  "nat \<Rightarrow> nat \<Rightarrow> nat \<Rightarrow> (nat \<rightharpoonup> nat) \<Rightarrow> nat list \<Rightarrow> (nat \<rightharpoonup> nat) \<times> match \<Rightarrow> (nat \<rightharpoonup> nat) \<times> match"
where
  "inner_loop blo bhi i j2len [] st = st"
| "inner_loop blo bhi i j2len (j # js) (newj2len, besti, bestj, bestsize) =
     (if j < blo then inner_loop blo bhi i j2len js (newj2len, besti, bestj, bestsize)
      else if j \<ge> bhi then (newj2len, besti, bestj, bestsize)
      else
        (let k = j2lenget j2len j + 1
         in inner_loop blo bhi i j2len js
              (newj2len(j \<mapsto> k),
               if k > bestsize then (i + 1 - k, j + 1 - k, k) else (besti, bestj, bestsize))))"

definition outer_step ::
  "'a list \<Rightarrow> ('a \<rightharpoonup> nat list) \<Rightarrow> nat \<Rightarrow> nat \<Rightarrow> (nat \<rightharpoonup> nat) \<times> match \<Rightarrow> nat \<Rightarrow> (nat \<rightharpoonup> nat) \<times> match"
where
  "outer_step a b2j blo bhi st i =
     (case st of (j2len, best) \<Rightarrow>
        inner_loop blo bhi i j2len (case b2j (a ! i) of None \<Rightarrow> [] | Some js \<Rightarrow> js)
          (Map.empty, best))"

function extend_back :: "'a list \<Rightarrow> 'a list \<Rightarrow> nat \<Rightarrow> nat \<Rightarrow> bool \<Rightarrow> match \<Rightarrow> match" where
  "extend_back a b alo blo junk (besti, bestj, bestsize) =
     (if besti > alo \<and> bestj > blo \<and> isbjunk (b ! (bestj - 1)) = junk \<and>
         a ! (besti - 1) = b ! (bestj - 1)
      then extend_back a b alo blo junk (besti - 1, bestj - 1, bestsize + 1)
      else (besti, bestj, bestsize))"
  by pat_completeness auto
termination
  by (relation "measure (\<lambda>(a, b, alo, blo, junk, besti, bestj, bestsize). besti)") auto

function extend_fwd :: "'a list \<Rightarrow> 'a list \<Rightarrow> nat \<Rightarrow> nat \<Rightarrow> bool \<Rightarrow> match \<Rightarrow> match" where
  "extend_fwd a b ahi bhi junk (besti, bestj, bestsize) =
     (if besti + bestsize < ahi \<and> bestj + bestsize < bhi \<and>
         isbjunk (b ! (bestj + bestsize)) = junk \<and>
         a ! (besti + bestsize) = b ! (bestj + bestsize)
      then extend_fwd a b ahi bhi junk (besti, bestj, bestsize + 1)
      else (besti, bestj, bestsize))"
  by pat_completeness auto
termination
  by (relation "measure (\<lambda>(a, b, ahi, bhi, junk, besti, bestj, bestsize). ahi - (besti + bestsize))")
    auto

declare extend_back.simps [simp del] extend_fwd.simps [simp del]

lemma outer_step_pair:
  "outer_step a b2j blo bhi (j2len, best) i =
     inner_loop blo bhi i j2len (case b2j (a ! i) of None \<Rightarrow> [] | Some js \<Rightarrow> js)
       (Map.empty, best)"
  by (simp add: outer_step_def)

definition find_longest_match ::
  "'a list \<Rightarrow> 'a list \<Rightarrow> ('a \<rightharpoonup> nat list) \<Rightarrow> nat \<Rightarrow> nat \<Rightarrow> nat \<Rightarrow> nat \<Rightarrow> match"
where
  "find_longest_match a b b2j alo ahi blo bhi =
     (let best = snd (foldl (outer_step a b2j blo bhi) (Map.empty, (alo, blo, 0)) [alo..<ahi]);
          best = extend_back a b alo blo False best;
          best = extend_fwd a b ahi bhi False best;
          best = extend_back a b alo blo True best;
          best = extend_fwd a b ahi bhi True best
      in best)"

definition small :: "nat \<Rightarrow> (nat \<rightharpoonup> nat) \<Rightarrow> bool" where
  "small m j2len = (\<forall>j v. j2len j = Some v \<longrightarrow> v \<le> m)"

lemma small_empty: "small m Map.empty"
  by (simp add: small_def)

lemma small_upd: "small m f \<Longrightarrow> k \<le> m \<Longrightarrow> small m (f(j \<mapsto> k))"
  by (simp add: small_def)

lemma j2lenget_small: "small m j2len \<Longrightarrow> j2lenget j2len j \<le> m"
  by (auto simp: small_def j2lenget_def split: option.splits)

lemma inner_loop_bounds:
  assumes "alo \<le> i" and "small (i - alo) j2len"
    and "small (Suc i - alo) new" and "alo \<le> bi" and "bi + bs \<le> Suc i"
    and "inner_loop blo bhi i j2len js (new, bi, bj, bs) = (new', bi', bj', bs')"
  shows "small (Suc i - alo) new' \<and> alo \<le> bi' \<and> bi' + bs' \<le> Suc i"
  using assms
proof (induction js arbitrary: new bi bj bs)
  case Nil
  then show ?case by simp
next
  case (Cons j js)
  let ?k = "j2lenget j2len j + 1"
  have k: "?k \<le> Suc i - alo"
    using j2lenget_small [OF Cons.prems(2), of j] Cons.prems(1) by simp
  show ?case
  proof (cases "j < blo")
    case True
    with Cons show ?thesis by simp
  next
    case False
    note nb = this
    show ?thesis
    proof (cases "j \<ge> bhi")
      case True
      with nb Cons.prems show ?thesis by simp
    next
      case False
      show ?thesis
      proof (cases "?k > bs")
        case True
        have "inner_loop blo bhi i j2len js (new(j \<mapsto> ?k), i + 1 - ?k, j + 1 - ?k, ?k)
                = (new', bi', bj', bs')"
          using Cons.prems(6) nb False True by (simp add: Let_def)
        moreover have "small (Suc i - alo) (new(j \<mapsto> ?k))"
          using Cons.prems(3) k by (rule small_upd)
        moreover have "alo \<le> i + 1 - ?k" and "(i + 1 - ?k) + ?k \<le> Suc i"
          using k Cons.prems(1) by simp_all
        ultimately show ?thesis
          using Cons.IH Cons.prems(1,2) by blast
      next
        case nk: False
        have "inner_loop blo bhi i j2len js (new(j \<mapsto> ?k), bi, bj, bs) = (new', bi', bj', bs')"
          using Cons.prems(6) nb False nk by (simp add: Let_def)
        moreover have "small (Suc i - alo) (new(j \<mapsto> ?k))"
          using Cons.prems(3) k by (rule small_upd)
        ultimately show ?thesis
          using Cons.IH Cons.prems(1,2,4,5) by blast
      qed
    qed
  qed
qed

lemma outer_loop_bounds:
  assumes "foldl (outer_step a b2j blo bhi) (Map.empty, (alo, blo, 0)) [alo..<alo + d]
             = (j2len, bi, bj, bs)"
  shows "small d j2len \<and> alo \<le> bi \<and> bi + bs \<le> alo + d"
  using assms
proof (induction d arbitrary: j2len bi bj bs)
  case 0
  then show ?case by (auto simp: small_def)
next
  case (Suc d)
  obtain j2len0 bi0 bj0 bs0 where
    prev: "foldl (outer_step a b2j blo bhi) (Map.empty, (alo, blo, 0)) [alo..<alo + d]
             = (j2len0, bi0, bj0, bs0)"
    by (metis prod_cases4)
  from Suc.IH [OF prev] have ih: "small d j2len0" "alo \<le> bi0" "bi0 + bs0 \<le> alo + d"
    by simp_all
  have step: "inner_loop blo bhi (alo + d) j2len0
                (case b2j (a ! (alo + d)) of None \<Rightarrow> [] | Some js \<Rightarrow> js)
                (Map.empty, bi0, bj0, bs0) = (j2len, bi, bj, bs)"
    using Suc.prems prev by (simp add: outer_step_pair)
  have "small (Suc (alo + d) - alo) j2len \<and> alo \<le> bi \<and> bi + bs \<le> Suc (alo + d)"
  proof (rule inner_loop_bounds [OF _ _ _ _ _ step])
    show "alo \<le> alo + d" by simp
    show "small (alo + d - alo) j2len0" using ih(1) by simp
    show "small (Suc (alo + d) - alo) Map.empty" by (rule small_empty)
    show "alo \<le> bi0" by (rule ih(2))
    show "bi0 + bs0 \<le> Suc (alo + d)" using ih(3) by simp
  qed
  then show ?case by (simp add: Suc_diff_le)
qed

text \<open>The block is inside the window, or it is the empty block the search starts from.\<close>

definition in_window :: "nat \<Rightarrow> nat \<Rightarrow> match \<Rightarrow> bool" where
  "in_window alo ahi m =
     (case m of (bi, bj, bs) \<Rightarrow> alo \<le> bi \<and> (bi + bs \<le> ahi \<or> (bs = 0 \<and> bi = alo)))"

lemma extend_back_window:
  "in_window alo ahi m \<Longrightarrow> in_window alo ahi (extend_back a b alo blo junk m)"
proof (induction a b alo blo junk m rule: extend_back.induct)
  case (1 a b alo blo junk besti bestj bestsize)
  show ?case
  proof (cases "besti > alo \<and> bestj > blo \<and> isbjunk (b ! (bestj - 1)) = junk \<and>
         a ! (besti - 1) = b ! (bestj - 1)")
    case True
    have "in_window alo ahi (besti - 1, bestj - 1, bestsize + 1)"
      using "1.prems" True by (auto simp: in_window_def)
    from "1.IH" [OF True this] True show ?thesis
      by (subst extend_back.simps) simp
  next
    case False
    then show ?thesis using "1.prems"
      by (subst extend_back.simps) auto
  qed
qed

lemma extend_fwd_window:
  "in_window alo ahi m \<Longrightarrow> in_window alo ahi (extend_fwd a b ahi bhi junk m)"
proof (induction a b ahi bhi junk m rule: extend_fwd.induct)
  case (1 a b ahi bhi junk besti bestj bestsize)
  show ?case
  proof (cases "besti + bestsize < ahi \<and> bestj + bestsize < bhi \<and>
         isbjunk (b ! (bestj + bestsize)) = junk \<and>
         a ! (besti + bestsize) = b ! (bestj + bestsize)")
    case True
    have "in_window alo ahi (besti, bestj, bestsize + 1)"
      using "1.prems" True by (auto simp: in_window_def)
    from "1.IH" [OF True this] True show ?thesis
      by (subst extend_fwd.simps) simp
  next
    case False
    then show ?thesis using "1.prems"
      by (subst extend_fwd.simps) auto
  qed
qed

lemma main_loop_window:
  "in_window alo ahi (snd (foldl (outer_step a b2j blo bhi) (Map.empty, (alo, blo, 0)) [alo..<ahi]))"
proof (cases "alo \<le> ahi")
  case True
  then obtain d where d: "ahi = alo + d"
    using le_Suc_ex by blast
  obtain j2len bi bj bs where
    r: "foldl (outer_step a b2j blo bhi) (Map.empty, (alo, blo, 0)) [alo..<alo + d]
          = (j2len, bi, bj, bs)"
    by (metis prod_cases4)
  from outer_loop_bounds [OF r] show ?thesis
    by (simp add: d r in_window_def)
next
  case False
  then show ?thesis by (simp add: in_window_def)
qed

lemma find_longest_match_window:
  "in_window alo ahi (find_longest_match a b b2j alo ahi blo bhi)"
  unfolding find_longest_match_def Let_def
  by (intro extend_fwd_window extend_back_window main_loop_window)

lemma find_longest_match_bounds:
  assumes "find_longest_match a b b2j alo ahi blo bhi = (i, j, k)" and "k \<noteq> 0"
  shows "alo \<le> i \<and> i + k \<le> ahi"
  using find_longest_match_window [of alo ahi a b b2j blo bhi] assms
  by (simp add: in_window_def)

type_synonym window = "nat \<times> nat \<times> nat \<times> nat"

definition weight :: "window \<Rightarrow> nat" where
  "weight w = (case w of (alo, ahi, blo, bhi) \<Rightarrow> 2 * (ahi - alo) + 1)"

function matching_loop ::
  "'a list \<Rightarrow> 'a list \<Rightarrow> ('a \<rightharpoonup> nat list) \<Rightarrow> window list \<Rightarrow> match list \<Rightarrow> match list"
where
  "matching_loop a b b2j [] matching_blocks = matching_blocks"
| "matching_loop a b b2j ((alo, ahi, blo, bhi) # queue) matching_blocks =
     (case find_longest_match a b b2j alo ahi blo bhi of (i, j, k) \<Rightarrow>
        if k \<noteq> 0
        then matching_loop a b b2j
               ((if i + k < ahi \<and> j + k < bhi then [(i + k, ahi, j + k, bhi)] else []) @
                (if alo < i \<and> blo < j then [(alo, i, blo, j)] else []) @ queue)
               (matching_blocks @ [(i, j, k)])
        else matching_loop a b b2j queue matching_blocks)"
  by pat_completeness auto
termination
proof (relation "measure (\<lambda>(a, b, b2j, queue, matching_blocks). sum_list (map weight queue))",
    goal_cases)
  case 1
  show ?case by simp
next
  case (2 a b b2j alo ahi blo bhi queue matching_blocks i y j k)
  then have f: "find_longest_match a b b2j alo ahi blo bhi = (i, j, k)"
    by simp
  from find_longest_match_bounds [OF f \<open>k \<noteq> 0\<close>] \<open>k \<noteq> 0\<close>
  show ?case
    by (auto simp: weight_def)
next
  case (3 a b b2j alo ahi blo bhi queue matching_blocks i y j k)
  show ?case
    by (simp add: weight_def)
qed

declare matching_loop.simps [simp del]

definition merge_step :: "nat \<times> nat \<times> nat \<times> match list \<Rightarrow> match \<Rightarrow> nat \<times> nat \<times> nat \<times> match list" where
  "merge_step st m =
     (case st of (i1, j1, k1, non_adjacent) \<Rightarrow>
      case m of (i2, j2, k2) \<Rightarrow>
        if i1 + k1 = i2 \<and> j1 + k1 = j2 then (i1, j1, k1 + k2, non_adjacent)
        else (i2, j2, k2, if k1 \<noteq> 0 then non_adjacent @ [(i1, j1, k1)] else non_adjacent))"

definition get_matching_blocks :: "'a list \<Rightarrow> 'a list \<Rightarrow> match list" where
  "get_matching_blocks a b =
     (let la = length a; lb = length b;
          matching_blocks = sort (matching_loop a b (chain_b b) [(0, la, 0, lb)] [])
      in case foldl merge_step (0, 0, 0, []) matching_blocks of
           (i1, j1, k1, non_adjacent) \<Rightarrow>
             (if k1 \<noteq> 0 then non_adjacent @ [(i1, j1, k1)] else non_adjacent) @ [(la, lb, 0)])"

datatype tag = Replace | Delete | Insert | Equal

type_synonym opcode = "tag \<times> nat \<times> nat \<times> nat \<times> nat"

definition opcode_step :: "nat \<times> nat \<times> opcode list \<Rightarrow> match \<Rightarrow> nat \<times> nat \<times> opcode list" where
  "opcode_step st m =
     (case st of (i, j, answer) \<Rightarrow>
      case m of (ai, bj, sz) \<Rightarrow>
        (let answer =
               (if i < ai \<and> j < bj then answer @ [(Replace, i, ai, j, bj)]
                else if i < ai then answer @ [(Delete, i, ai, j, bj)]
                else if j < bj then answer @ [(Insert, i, ai, j, bj)]
                else answer);
             i = ai + sz; j = bj + sz
         in (i, j, if sz \<noteq> 0 then answer @ [(Equal, ai, i, bj, j)] else answer)))"

definition get_opcodes :: "'a list \<Rightarrow> 'a list \<Rightarrow> opcode list" where
  "get_opcodes a b = snd (snd (foldl opcode_step (0, 0, []) (get_matching_blocks a b)))"

definition trim_first :: "nat \<Rightarrow> opcode list \<Rightarrow> opcode list" where
  "trim_first n codes =
     (case codes ! 0 of (tag, i1, i2, j1, j2) \<Rightarrow>
        if tag = Equal then codes[0 := (tag, max i1 (i2 - n), i2, max j1 (j2 - n), j2)]
        else codes)"

definition trim_last :: "nat \<Rightarrow> opcode list \<Rightarrow> opcode list" where
  "trim_last n codes =
     (case codes ! (length codes - 1) of (tag, i1, i2, j1, j2) \<Rightarrow>
        if tag = Equal
        then codes[length codes - 1 := (tag, i1, min i2 (i1 + n), j1, min j2 (j1 + n))]
        else codes)"

definition group_step :: "nat \<Rightarrow> opcode list list \<times> opcode list \<Rightarrow> opcode \<Rightarrow> opcode list list \<times> opcode list" where
  "group_step n st code =
     (case st of (yielded, grp) \<Rightarrow>
      case code of (tag, i1, i2, j1, j2) \<Rightarrow>
        if tag = Equal \<and> i2 - i1 > n + n
        then (yielded @ [grp @ [(tag, i1, min i2 (i1 + n), j1, min j2 (j1 + n))]],
              [(tag, max i1 (i2 - n), i2, max j1 (j2 - n), j2)])
        else (yielded, grp @ [(tag, i1, i2, j1, j2)]))"

definition get_grouped_opcodes :: "'a list \<Rightarrow> 'a list \<Rightarrow> nat \<Rightarrow> opcode list list" where
  "get_grouped_opcodes a b n =
     (let codes = get_opcodes a b;
          codes = (if codes = [] then [(Equal, 0, 1, 0, 1)] else codes);
          codes = trim_first n codes;
          codes = trim_last n codes
      in case foldl (group_step n) ([], []) codes of
           (yielded, grp) \<Rightarrow>
             if grp \<noteq> [] \<and> \<not> (length grp = 1 \<and> fst (grp ! 0) = Equal)
             then yielded @ [grp] else yielded)"

subsection \<open>unified_diff\<close>

definition digit :: "nat \<Rightarrow> char" where
  "digit d = char_of (48 + d)"

function str_nat :: "nat \<Rightarrow> string" where
  "str_nat n = (if n < 10 then [digit n] else str_nat (n div 10) @ [digit (n mod 10)])"
  by pat_completeness auto
termination
  by (relation "measure (\<lambda>n. n)") auto

declare str_nat.simps [simp del]

definition format_range_unified :: "nat \<Rightarrow> nat \<Rightarrow> string" where
  "format_range_unified start stop =
     (let beginning = start + 1; len = stop - start
      in if len = 1 then str_nat beginning
         else str_nat (if len = 0 then beginning - 1 else beginning) @ '','' @ str_nat len)"

definition slice :: "'a list \<Rightarrow> nat \<Rightarrow> nat \<Rightarrow> 'a list" where
  "slice xs i1 i2 = take (i2 - i1) (drop i1 xs)"

definition opcode_lines :: "string list \<Rightarrow> string list \<Rightarrow> opcode \<Rightarrow> string list" where
  "opcode_lines a b code =
     (case code of (tag, i1, i2, j1, j2) \<Rightarrow>
        if tag = Equal then map (\<lambda>line. CHR '' '' # line) (slice a i1 i2)
        else
          (if tag = Replace \<or> tag = Delete then map (\<lambda>line. CHR ''-'' # line) (slice a i1 i2)
           else []) @
          (if tag = Replace \<or> tag = Insert then map (\<lambda>line. CHR ''+'' # line) (slice b j1 j2)
           else []))"

definition group_lines :: "string list \<Rightarrow> string list \<Rightarrow> string \<Rightarrow> opcode list \<Rightarrow> string list" where
  "group_lines a b lineterm grp =
     (case (grp ! 0, grp ! (length grp - 1)) of
        ((t1, f1, f2, f3, f4), (t2, l1, l2, l3, l4)) \<Rightarrow>
          (''@@ -'' @ format_range_unified f1 l2 @ '' +'' @ format_range_unified f3 l4 @ '' @@''
             @ lineterm)
          # concat (map (opcode_lines a b) grp))"

definition unified_diff :: "string list \<Rightarrow> string list \<Rightarrow> nat \<Rightarrow> string \<Rightarrow> string list" where
  "unified_diff a b n lineterm =
     (case get_grouped_opcodes a b n of
        [] \<Rightarrow> []
      | grp # grps \<Rightarrow>
          [''--- '' @ lineterm, ''+++ '' @ lineterm] @
          concat (map (group_lines a b lineterm) (grp # grps)))"

section \<open>main: the package delta\<close>

text \<open>
  Lines 153 and 154 of \<^verbatim>\<open>main\<close>:
  \<^verbatim>\<open>rpmdiff = difflib.unified_diff(prelist, postlist, n=0, lineterm="")\<close> and
  \<^verbatim>\<open>rpmdiff = rpmdata.formatdiff(rpmdiff)\<close>.
\<close>

definition rpmdiff_lines :: "string list \<Rightarrow> string list \<Rightarrow> string list" where
  "rpmdiff_lines prelist postlist = unified_diff prelist postlist 0 []"

definition main_rpmdiff :: "string list \<Rightarrow> string list \<Rightarrow> string" where
  "main_rpmdiff prelist postlist = formatdiff (rpmdiff_lines prelist postlist)"

text \<open>The lines of the diff that the loop of \<^verbatim>\<open>formatdiff\<close> appends to the report.\<close>

definition report_lines :: "string list \<Rightarrow> string list \<Rightarrow> string list" where
  "report_lines prelist postlist = filter found (rpmdiff_lines prelist postlist)"

text \<open>A line that starts with a sign and a letter; a line of the raw diff.\<close>

definition sign_letter :: "string \<Rightarrow> bool" where
  "sign_letter l =
     (\<exists>c d rest. l = c # d # rest \<and> (c = CHR ''+'' \<or> c = CHR ''-'') \<and> ascii_letter d)"

definition diff_line :: "string \<Rightarrow> bool" where
  "diff_line l =
     (\<exists>c rest. l = c # rest \<and> (c = CHR ''-'' \<or> c = CHR ''+'' \<or> c = CHR ''@'' \<or> c = CHR '' ''))"

section \<open>Properties of formatdiff and of the package delta\<close>

lemma star_try_always: "star_try (\<lambda>s. Some 0) s k = Some k"
  by (cases k) simp_all

lemma of_char_between: "(of_char c :: nat) \<le> of_char x \<and> (of_char x :: nat) \<le> of_char c \<longleftrightarrow> x = c"
  by (auto simp: of_char_eq_iff dest: antisym)

lemma in_set_signs:
  "in_set [(CHR ''-'', CHR ''-''), (CHR ''|'', CHR ''|''), (CHR ''+'', CHR ''+'')] c
     = (c = CHR ''-'' \<or> c = CHR ''|'' \<or> c = CHR ''+'')"
  using of_char_between [of "CHR ''-''" c] of_char_between [of "CHR ''|''" c]
    of_char_between [of "CHR ''+''" c]
  by (auto simp add: in_set_def simp del: of_char_Char)

lemma in_set_letters:
  "in_set [(CHR ''a'', CHR ''z''), (CHR ''A'', CHR ''Z'')] c = ascii_letter c"
  by (simp add: in_set_def ascii_letter_def)

lemma found_iff:
  "found line =
     (\<exists>c d rest. line = c # d # rest \<and> (c = CHR ''-'' \<or> c = CHR ''|'' \<or> c = CHR ''+'') \<and>
        ascii_letter d)"
proof (cases line)
  case Nil
  then show ?thesis by (simp add: found_def re_search_def)
next
  case (Cons c cs)
  note l = this
  show ?thesis
  proof (cases cs)
    case Nil
    with l show ?thesis by (simp add: found_def re_search_def)
  next
    case (Cons d rest)
    with l show ?thesis
      by (simp add: found_def re_search_def in_set_signs in_set_letters star_try_always)
  qed
qed

lemma diff_body_foldl:
  "foldl (\<lambda>text line. if found line then text @ line @ [newline] else text) acc ls
     = acc @ unlines (filter found ls)"
  by (induction ls arbitrary: acc) (simp_all add: unlines_def)

lemma diff_body_unlines: "diff_body ls = unlines (filter found ls)"
  by (simp add: diff_body_def diff_body_foldl)


lemma split_nl_line:
  "newline \<notin> set l \<Longrightarrow> split_nl (l @ newline # rest) = l # split_nl rest"
  by (induction l) auto

lemma split_nl_unlines:
  "list_all (\<lambda>l. newline \<notin> set l) ls \<Longrightarrow> split_nl (unlines ls) = ls @ [[]]"
  by (induction ls) (simp_all add: unlines_def split_nl_line)

lemma opcode_lines_shape: "l \<in> set (opcode_lines a b code) \<Longrightarrow> diff_line l"
  by (cases code) (auto simp: opcode_lines_def diff_line_def split: if_splits)

lemma group_lines_shape: "l \<in> set (group_lines a b lineterm grp) \<Longrightarrow> diff_line l"
  by (auto simp: group_lines_def diff_line_def split: prod.splits dest: opcode_lines_shape)

lemma unified_diff_shape: "l \<in> set (unified_diff a b n lineterm) \<Longrightarrow> diff_line l"
  by (auto simp: unified_diff_def diff_line_def split: list.splits dest: group_lines_shape)

lemma opcode_lines_newline:
  assumes "list_all (\<lambda>l. newline \<notin> set l) a" and "list_all (\<lambda>l. newline \<notin> set l) b"
    and "l \<in> set (opcode_lines a b code)" and "found l"
  shows "newline \<notin> set l"
proof -
  have a: "\<And>x i1 i2. x \<in> set (slice a i1 i2) \<Longrightarrow> newline \<notin> set x"
    using assms(1) by (auto simp: slice_def list_all_iff dest!: in_set_takeD in_set_dropD)
  have b: "\<And>x i1 i2. x \<in> set (slice b i1 i2) \<Longrightarrow> newline \<notin> set x"
    using assms(2) by (auto simp: slice_def list_all_iff dest!: in_set_takeD in_set_dropD)
  show ?thesis
    using assms(3) a b
    by (cases code) (auto simp: opcode_lines_def newline_def split: if_splits)
qed


lemma group_lines_newline:
  assumes "list_all (\<lambda>l. newline \<notin> set l) a" and "list_all (\<lambda>l. newline \<notin> set l) b"
    and "l \<in> set (group_lines a b lineterm grp)" and "found l"
  shows "newline \<notin> set l"
proof -
  have "\<not> found (''@@ -'' @ r)" for r
    by (simp add: found_iff)
  then show ?thesis
    using assms opcode_lines_newline [OF assms(1,2)]
    by (auto simp: group_lines_def split: prod.splits)
qed

lemma unified_diff_newline:
  assumes "list_all (\<lambda>l. newline \<notin> set l) a" and "list_all (\<lambda>l. newline \<notin> set l) b"
    and "l \<in> set (unified_diff a b n lineterm)" and "found l"
  shows "newline \<notin> set l"
proof -
  have "\<not> found (''--- '' @ r)" and "\<not> found (''+++ '' @ r)" for r
    by (simp_all add: found_iff ascii_letter_def)
  then show ?thesis
    using assms group_lines_newline [OF assms(1,2)]
    by (auto simp: unified_diff_def split: list.splits)
qed

lemma kept_sign_letter:
  assumes "l \<in> set (unified_diff a b n lineterm)" and "found l"
  shows "sign_letter l"
  using unified_diff_shape [OF assms(1)] assms(2)
  by (auto simp: found_iff diff_line_def sign_letter_def)

text \<open>
  C2: for every pair of snapshots, every line that \<^verbatim>\<open>formatdiff\<close> puts into the body of
  the report starts with \<open>+\<close> or \<open>-\<close> followed by an ASCII letter, so no file header
  (\<open>---\<close>, \<open>+++\<close>) and no hunk header (\<open>@@\<close>) is among them. The body is these lines,
  each followed by a newline; when no package identifier holds a newline, splitting the
  body at its newlines gives back exactly these lines.
\<close>

theorem report_body_sign_letter:
  "main_rpmdiff prelist postlist
     = seperator @ diffheader @ unlines (report_lines prelist postlist) @ seperator \<and>
   list_all sign_letter (report_lines prelist postlist) \<and>
   (list_all (\<lambda>x. newline \<notin> set x) (prelist @ postlist) \<longrightarrow>
      split_nl (unlines (report_lines prelist postlist)) = report_lines prelist postlist @ [[]])"
proof (intro conjI impI)
  show "main_rpmdiff prelist postlist
     = seperator @ diffheader @ unlines (report_lines prelist postlist) @ seperator"
    by (simp add: main_rpmdiff_def formatdiff_def diff_body_unlines report_lines_def)
  show "list_all sign_letter (report_lines prelist postlist)"
    by (auto simp: list_all_iff report_lines_def rpmdiff_lines_def intro: kept_sign_letter)
next
  assume "list_all (\<lambda>x. newline \<notin> set x) (prelist @ postlist)"
  then have pp: "list_all (\<lambda>l. newline \<notin> set l) prelist" "list_all (\<lambda>l. newline \<notin> set l) postlist"
    by simp_all
  have "newline \<notin> set l" if "l \<in> set (report_lines prelist postlist)" for l
    using that unified_diff_newline [OF pp]
    by (auto simp: report_lines_def rpmdiff_lines_def)
  then have "list_all (\<lambda>l. newline \<notin> set l) (report_lines prelist postlist)"
    by (simp add: list_all_iff)
  then show "split_nl (unlines (report_lines prelist postlist)) = report_lines prelist postlist @ [[]]"
    by (rule split_nl_unlines)
qed

theorem report_body_sign_letter_witness:
  "list_all (\<lambda>x. newline \<notin> set x) ([''a-1-1'', ''b-2-2''] @ [''a-1-1'', ''c-3-3'']) \<and>
   list_all sign_letter (report_lines [''a-1-1'', ''b-2-2''] [''a-1-1'', ''c-3-3'']) \<and>
   split_nl (unlines (report_lines [''a-1-1'', ''b-2-2''] [''a-1-1'', ''c-3-3'']))
     = report_lines [''a-1-1'', ''b-2-2''] [''a-1-1'', ''c-3-3''] @ [[]]"
  using report_body_sign_letter [of "[''a-1-1'', ''b-2-2'']" "[''a-1-1'', ''c-3-3'']"]
  by (simp add: newline_def)

text \<open>
  C5: for every pair of snapshots the report is the separator, the header line
  \<open>This is the RPM delta\<close>, the body and the separator again, where the separator is 80
  equals signs and a newline. \<^verbatim>\<open>formatdiff\<close> and the diff are total functions, so the
  report exists for every input, the empty snapshots included.
\<close>

theorem report_layout:
  "main_rpmdiff prelist postlist
     = seperator @ (''This is the RPM delta'' @ [newline]) @
       diff_body (rpmdiff_lines prelist postlist) @ seperator \<and>
   seperator = replicate 80 (CHR ''='') @ [newline] \<and>
   main_rpmdiff [] [] = seperator @ (''This is the RPM delta'' @ [newline]) @ seperator"
proof (intro conjI)
  show "main_rpmdiff prelist postlist
     = seperator @ (''This is the RPM delta'' @ [newline]) @
       diff_body (rpmdiff_lines prelist postlist) @ seperator"
    by (simp add: main_rpmdiff_def formatdiff_def diffheader_def)
  show "seperator = replicate 80 (CHR ''='') @ [newline]"
    by (simp add: seperator_def eval_nat_numeral)
  have "rpmdiff_lines [] [] = []"
    by code_simp
  then show "main_rpmdiff [] [] = seperator @ (''This is the RPM delta'' @ [newline]) @ seperator"
    by (simp add: main_rpmdiff_def formatdiff_def diffheader_def diff_body_def)
qed

text \<open>
  C6: for the snapshots \<open>a-1-1, b-2-2\<close> and \<open>a-1-1, c-3-3\<close> the diff, computed with no
  context lines and an empty line terminator, is the two file headers, one hunk header,
  the removal and the addition; the body of the report is the line \<open>-b-2-2\<close> and then the
  line \<open>+c-3-3\<close>.
\<close>

theorem report_example:
  "rpmdiff_lines [''a-1-1'', ''b-2-2''] [''a-1-1'', ''c-3-3'']
     = [''--- '', ''+++ '', ''@@ -2 +2 @@'', ''-b-2-2'', ''+c-3-3''] \<and>
   report_lines [''a-1-1'', ''b-2-2''] [''a-1-1'', ''c-3-3''] = [''-b-2-2'', ''+c-3-3''] \<and>
   main_rpmdiff [''a-1-1'', ''b-2-2''] [''a-1-1'', ''c-3-3'']
     = seperator @ diffheader @ (''-b-2-2'' @ [newline]) @ (''+c-3-3'' @ [newline]) @ seperator"
  by code_simp

text \<open>
  C10: the filter of \<^verbatim>\<open>formatdiff\<close> keeps exactly the lines whose first character is
  \<open>-\<close>, \<open>|\<close> or \<open>+\<close> and whose second character is an ASCII letter; so the line
  \<open>|abc\<close> of an input is kept in the body of the report.
\<close>

theorem formatdiff_keeps_pipe:
  "found line =
     (\<exists>c d rest. line = c # d # rest \<and> (c = CHR ''-'' \<or> c = CHR ''|'' \<or> c = CHR ''+'') \<and>
        ascii_letter d) \<and>
   formatdiff [''--- '', ''|abc'', ''@@ -1 +1 @@'']
     = seperator @ diffheader @ (''|abc'' @ [newline]) @ seperator"
proof
  show "found line =
     (\<exists>c d rest. line = c # d # rest \<and> (c = CHR ''-'' \<or> c = CHR ''|'' \<or> c = CHR ''+'') \<and>
        ascii_letter d)"
    by (rule found_iff)
  show "formatdiff [''--- '', ''|abc'', ''@@ -1 +1 @@'']
     = seperator @ diffheader @ (''|abc'' @ [newline]) @ seperator"
    by code_simp
qed

section \<open>The diff of a snapshot with itself\<close>

subsection \<open>The index of the second sequence\<close>

lemma chain_fold:
  "foldl (\<lambda>b2j (i, elt).
       b2j(elt \<mapsto> (case b2j elt of None \<Rightarrow> [] | Some indices \<Rightarrow> indices) @ [i]))
     Map.empty (enumerate 0 b) x
   = (if x \<in> set b then Some (filter (\<lambda>j. b ! j = x) [0..<length b]) else None)"
proof (induction b rule: rev_induct)
  case Nil
  then show ?case by simp
next
  case (snoc y b)
  have f: "filter (\<lambda>j. (b @ [y]) ! j = z) [0..<length b] = filter (\<lambda>j. b ! j = z) [0..<length b]"
    for z
    by (rule filter_cong) (simp_all add: nth_append)
  have e: "z \<notin> set b \<Longrightarrow> filter (\<lambda>j. b ! j = z) [0..<length b] = []" for z
    by (auto simp: filter_empty_conv)
  show ?case
    using snoc.IH by (auto simp: enumerate_append_eq f e)
qed

lemma chain_b_Some:
  assumes "chain_b b x = Some js"
  shows "js = filter (\<lambda>j. b ! j = x) [0..<length b] \<and> x \<in> set b"
  using assms unfolding chain_b_def Let_def chain_fold
  by (auto split: if_splits)


subsection \<open>The search on two equal sequences\<close>

lemma inner_loop_map:
  assumes "list_all (\<lambda>j. j < bhi) js"
  shows "fst (inner_loop 0 bhi i j2len js (new, best))
           = (\<lambda>j. if j \<in> set js then Some (j2lenget j2len j + 1) else new j)"
  using assms
proof (induction js arbitrary: new best)
  case Nil
  then show ?case by simp
next
  case (Cons j js)
  obtain bi bj bs where b: "best = (bi, bj, bs)"
    by (cases best)
  from Cons.prems have "j < bhi" "list_all (\<lambda>j. j < bhi) js"
    by simp_all
  then show ?case
    unfolding b by (auto simp: Let_def Cons.IH)
qed

lemma inner_loop_diagonal:
  assumes "sorted js" and "list_all (\<lambda>j. j < bhi) js"
    and "list_all (\<lambda>j. j < i \<longrightarrow> j2lenget j2len j + 1 \<le> L) js"
    and "list_all (\<lambda>j. j2lenget j2len j + 1 \<le> M) js"
    and "j2lenget j2len i + 1 = M"
    and "L \<le> bs" and "i \<in> set js \<or> M \<le> bs"
    and "snd (inner_loop 0 bhi i j2len js (new, d, d, bs)) = (bi', bj', bs')"
  shows "bi' = bj' \<and> L \<le> bs' \<and> M \<le> bs'"
  using assms
proof (induction js arbitrary: new d bs)
  case Nil
  then show ?case by simp
next
  case (Cons j js)
  let ?k = "j2lenget j2len j + 1"
  have jb: "j < bhi" and srt: "sorted js" and bnd: "list_all (\<lambda>j. j < bhi) js"
    and lo: "list_all (\<lambda>j. j < i \<longrightarrow> j2lenget j2len j + 1 \<le> L) js"
    and hi: "list_all (\<lambda>j. j2lenget j2len j + 1 \<le> M) js"
    using Cons.prems by simp_all
  have kM: "?k \<le> M"
    using Cons.prems(4) by simp
  consider (less) "j < i" | (eq) "j = i" | (greater) "i < j"
    by arith
  then show ?case
  proof cases
    case less
    then have "?k \<le> bs"
      using Cons.prems(3,6) by simp
    then have run: "snd (inner_loop 0 bhi i j2len js (new(j \<mapsto> ?k), d, d, bs)) = (bi', bj', bs')"
      using Cons.prems(8) jb by (simp add: Let_def)
    have "i \<in> set js \<or> M \<le> bs"
      using Cons.prems(7) less by auto
    from Cons.IH [OF srt bnd lo hi Cons.prems(5) Cons.prems(6) this run] show ?thesis .
  next
    case eq
    show ?thesis
    proof (cases "?k > bs")
      case True
      then have run: "snd (inner_loop 0 bhi i j2len js (new(j \<mapsto> ?k), i + 1 - ?k, i + 1 - ?k, ?k))
                        = (bi', bj', bs')"
        using Cons.prems(8) jb eq by (simp add: Let_def)
      have l: "L \<le> ?k" using True Cons.prems(6) by simp
      have m: "i \<in> set js \<or> M \<le> ?k"
        using Cons.prems(5) eq by simp
      from Cons.IH [OF srt bnd lo hi Cons.prems(5) l m run] show ?thesis .
    next
      case False
      then have run: "snd (inner_loop 0 bhi i j2len js (new(j \<mapsto> ?k), d, d, bs)) = (bi', bj', bs')"
        using Cons.prems(8) jb by (simp add: Let_def)
      have "i \<in> set js \<or> M \<le> bs"
        using False Cons.prems(5) eq by simp
      from Cons.IH [OF srt bnd lo hi Cons.prems(5) Cons.prems(6) this run] show ?thesis .
    qed
  next
    case greater
    then have "i \<notin> set (j # js)"
      using Cons.prems(1) by auto
    then have Mb: "M \<le> bs"
      using Cons.prems(7) by simp
    then have "?k \<le> bs"
      using kM by simp
    then have run: "snd (inner_loop 0 bhi i j2len js (new(j \<mapsto> ?k), d, d, bs)) = (bi', bj', bs')"
      using Cons.prems(8) jb by (simp add: Let_def)
    from Cons.IH [OF srt bnd lo hi Cons.prems(5) Cons.prems(6) _ run] Mb show ?thesis
      by simp
  qed
qed


text \<open>
  An element is looked up in the index unless the junk heuristic has purged it as popular.
  \<open>run S k\<close> is the number of unpurged elements that end the first \<open>k\<close> elements of
  \<open>S\<close>: the longest match the search can find that ends there on the diagonal.
\<close>

definition nonpop :: "'a list \<Rightarrow> 'a \<Rightarrow> bool" where
  "nonpop S x = (chain_b S x \<noteq> None)"

definition run :: "'a list \<Rightarrow> nat \<Rightarrow> nat" where
  "run S k = length (takeWhile (nonpop S) (rev (take k S)))"

lemma run_0: "run S 0 = 0"
  by (simp add: run_def)

lemma run_Suc:
  "k < length S \<Longrightarrow> run S (Suc k) = (if nonpop S (S ! k) then Suc (run S k) else 0)"
  by (simp add: run_def take_Suc_conv_app_nth)

text \<open>
  The invariant of the search loop after \<open>d\<close> rows, when both sequences are \<open>S\<close>: the
  best block lies on the diagonal, no entry of \<open>j2len\<close> exceeds the runs at its two ends,
  the diagonal entry is the run itself, and the best block is as long as every run so far.
\<close>

definition eq_inv :: "'a list \<Rightarrow> nat \<Rightarrow> (nat \<rightharpoonup> nat) \<times> match \<Rightarrow> bool" where
  "eq_inv S d st =
     (case st of (j2len, bi, bj, bs) \<Rightarrow>
        bi = bj \<and>
        (\<forall>j \<le> length S. j2lenget j2len j \<le> run S j \<and> j2lenget j2len j \<le> run S d) \<and>
        j2lenget j2len d = run S d \<and>
        (\<forall>i' \<le> d. run S i' \<le> bs))"

lemma eq_inv_step:
  assumes inv: "eq_inv S d (j2len, bi, bj, bs)" and d: "d < length S"
  shows "eq_inv S (Suc d) (outer_step S (chain_b S) 0 (length S) (j2len, bi, bj, bs) d)"
proof (cases "chain_b S (S ! d)")
  case None
  then have "\<not> nonpop S (S ! d)"
    by (simp add: nonpop_def)
  then have r: "run S (Suc d) = 0"
    using d by (simp add: run_Suc)
  have "outer_step S (chain_b S) 0 (length S) (j2len, bi, bj, bs) d = (Map.empty, bi, bj, bs)"
    by (simp add: outer_step_pair None)
  moreover have "\<forall>i' \<le> Suc d. run S i' \<le> bs"
    using inv r by (auto simp: eq_inv_def le_Suc_eq)
  ultimately show ?thesis
    using inv r by (simp add: eq_inv_def j2lenget_def)
next
  case (Some js)
  let ?n = "length S"
  let ?k = "\<lambda>j. j2lenget j2len j + 1"
  let ?M = "run S (Suc d)"
  from chain_b_Some [OF Some] have js: "js = filter (\<lambda>j. S ! j = S ! d) [0..<?n]"
    by simp
  have np: "nonpop S (S ! d)"
    by (simp add: nonpop_def Some)
  have M: "?M = Suc (run S d)"
    using d np by (simp add: run_Suc)
  have bibj: "bi = bj" and jr: "\<And>j. j \<le> ?n \<Longrightarrow> j2lenget j2len j \<le> run S j"
    and jd: "\<And>j. j \<le> ?n \<Longrightarrow> j2lenget j2len j \<le> run S d"
    and dd: "j2lenget j2len d = run S d" and best: "\<And>i'. i' \<le> d \<Longrightarrow> run S i' \<le> bs"
    using inv by (simp_all add: eq_inv_def)
  have in_js: "j \<in> set js \<longleftrightarrow> j < ?n \<and> S ! j = S ! d" for j
    by (auto simp: js)
  have kj: "?k j \<le> run S (Suc j)" if "j \<in> set js" for j
  proof -
    from that have "j < ?n" "nonpop S (S ! j)"
      using np by (simp_all add: in_js)
    then show ?thesis
      using jr [of j] by (simp add: run_Suc)
  qed
  have kM: "?k j \<le> ?M" if "j \<in> set js" for j
    using that jd [of j] M by (simp add: in_js)
  obtain new' bi' bj' bs' where
    res: "inner_loop 0 ?n d j2len js (Map.empty, bi, bi, bs) = (new', bi', bj', bs')"
    by (metis prod_cases4)
  have step: "outer_step S (chain_b S) 0 ?n (j2len, bi, bj, bs) d = (new', bi', bj', bs')"
    using res bibj by (simp add: outer_step_pair Some)
  have bnd: "list_all (\<lambda>j. j < ?n) js"
    by (simp add: list_all_iff in_js)
  have new': "new' = (\<lambda>j. if j \<in> set js then Some (?k j) else None)"
    using inner_loop_map [OF bnd, of d j2len Map.empty "(bi, bi, bs)"] res by simp
  have diag: "bi' = bj' \<and> bs \<le> bs' \<and> ?M \<le> bs'"
  proof (rule inner_loop_diagonal [where js = js and i = d and j2len = j2len and bhi = ?n])
    show "sorted js"
      by (simp add: js sorted_wrt_filter)
    show "list_all (\<lambda>j. j < ?n) js"
      by (rule bnd)
    show "list_all (\<lambda>j. j < d \<longrightarrow> ?k j \<le> bs) js"
      unfolding list_all_iff
    proof (intro ballI impI)
      fix j assume "j \<in> set js" and "j < d"
      then show "?k j \<le> bs"
        using kj [of j] best [of "Suc j"] by simp
    qed
    show "list_all (\<lambda>j. ?k j \<le> ?M) js"
      using kM by (simp add: list_all_iff)
    show "?k d = ?M"
      using dd M by simp
    show "bs \<le> bs"
      by simp
    show "d \<in> set js \<or> ?M \<le> bs"
      using d by (simp add: in_js)
    show "snd (inner_loop 0 ?n d j2len js (Map.empty, bi, bi, bs)) = (bi', bj', bs')"
      by (simp add: res)
  qed
  have a: "j2lenget new' j \<le> run S j \<and> j2lenget new' j \<le> ?M" if "j \<le> ?n" for j
  proof (cases "j = 0 \<or> j - 1 \<notin> set js")
    case True
    then show ?thesis
      by (auto simp: j2lenget_def new')
  next
    case False
    then have "j2lenget new' j = ?k (j - 1)" and "Suc (j - 1) = j" and "j - 1 \<in> set js"
      by (simp_all add: j2lenget_def new')
    then show ?thesis
      using kj [of "j - 1"] kM [of "j - 1"] by simp
  qed
  have b: "j2lenget new' (Suc d) = ?M"
    using d dd M by (simp add: j2lenget_def new' in_js)
  have c: "run S i' \<le> bs'" if "i' \<le> Suc d" for i'
    using that best [of i'] diag by (cases "i' = Suc d") auto
  show ?thesis
    unfolding step eq_inv_def using diag a b c by simp
qed

lemma eq_inv_loop:
  "d \<le> length S \<Longrightarrow>
     eq_inv S d (foldl (outer_step S (chain_b S) 0 (length S)) (Map.empty, (0, 0, 0)) [0..<d])"
proof (induction d)
  case 0
  then show ?case
    by (simp add: eq_inv_def j2lenget_def run_0)
next
  case (Suc d)
  obtain j2len bi bj bs where
    st: "foldl (outer_step S (chain_b S) 0 (length S)) (Map.empty, (0, 0, 0)) [0..<d]
           = (j2len, bi, bj, bs)"
    by (metis prod_cases4)
  from Suc have "eq_inv S d (j2len, bi, bj, bs)" and "d < length S"
    by (simp_all add: st)
  from eq_inv_step [OF this] show ?case
    by (simp add: st)
qed


lemma extend_back_eq: "extend_back S S 0 0 False (d, d, s) = (0, 0, s + d)"
proof (induction d arbitrary: s)
  case 0
  then show ?case
    by (subst extend_back.simps) simp
next
  case (Suc d)
  show ?case
    by (subst extend_back.simps) (simp add: isbjunk_def Suc.IH)
qed

lemma extend_fwd_eq: "s \<le> n \<Longrightarrow> extend_fwd S S n n False (0, 0, s) = (0, 0, n)"
proof (induction "n - s" arbitrary: s)
  case 0
  then show ?case
    by (subst extend_fwd.simps) simp
next
  case (Suc m)
  then have "m = n - Suc s" and "Suc s \<le> n" and "s < n"
    by simp_all
  from Suc.hyps(1) [OF this(1,2)] \<open>s < n\<close> show ?case
    by (subst extend_fwd.simps) (simp add: isbjunk_def)
qed

lemma extend_back_junk: "extend_back S S 0 0 True (0, 0, n) = (0, 0, n)"
  by (subst extend_back.simps) simp

lemma extend_fwd_junk: "extend_fwd S S n n True (0, 0, n) = (0, 0, n)"
  by (subst extend_fwd.simps) simp

lemma find_longest_match_eq:
  "find_longest_match S S (chain_b S) 0 (length S) 0 (length S) = (0, 0, length S)"
proof -
  let ?n = "length S"
  obtain j2len bi bj bs where
    st: "foldl (outer_step S (chain_b S) 0 ?n) (Map.empty, (0, 0, 0)) [0..<0 + ?n]
           = (j2len, bi, bj, bs)"
    by (metis prod_cases4)
  from outer_loop_bounds [OF st] have le: "bi + bs \<le> ?n"
    by simp
  from eq_inv_loop [of ?n S] st have "bi = bj"
    by (simp add: eq_inv_def)
  with le st show ?thesis
    by (simp add: find_longest_match_def extend_back_eq extend_fwd_eq extend_back_junk
        extend_fwd_junk)
qed

lemma get_matching_blocks_eq:
  "get_matching_blocks S S
     = (if length S = 0 then [(0, 0, 0)] else [(0, 0, length S), (length S, length S, 0)])"
  by (simp add: get_matching_blocks_def matching_loop.simps find_longest_match_eq merge_step_def
      Let_def)

lemma get_opcodes_eq:
  "get_opcodes S S = (if length S = 0 then [] else [(Equal, 0, length S, 0, length S)])"
  by (simp add: get_opcodes_def get_matching_blocks_eq opcode_step_def Let_def)

lemma get_grouped_opcodes_eq: "get_grouped_opcodes S S 0 = []"
  by (simp add: get_grouped_opcodes_def get_opcodes_eq trim_first_def trim_last_def group_step_def
      Let_def)

lemma unified_diff_eq: "unified_diff S S 0 lineterm = []"
  by (simp add: unified_diff_def get_grouped_opcodes_eq)

text \<open>
  C7: for every sequence \<open>S\<close> of package identifiers, the diff of \<open>S\<close> with itself has no
  line at all, so the body of the report is empty and the report is the separator, the
  header line and the separator: a value like any other, no error.
\<close>

theorem report_unchanged:
  "rpmdiff_lines S S = [] \<and> diff_body (rpmdiff_lines S S) = [] \<and>
   main_rpmdiff S S = seperator @ diffheader @ seperator"
  by (simp add: rpmdiff_lines_def unified_diff_eq main_rpmdiff_def formatdiff_def diff_body_def)

section \<open>Properties of rpm\<close>

lemma foldl_snoc_map: "foldl (\<lambda>acc h. acc @ [f h]) acc0 hs = acc0 @ map f hs"
  by (induction hs arbitrary: acc0) simp_all

text \<open>
  C8: for every enumeration of the package database, \<^verbatim>\<open>rpm\<close> returns one identifier
  per header, each \<open>name-version-release\<close>, in the order of the enumeration: the result
  is the map of \<^const>\<open>nvr\<close> over the headers, so the identifier at each position comes
  from the header at that position and nothing is sorted.
\<close>

theorem rpm_identifiers_in_order:
  "rpm (Some mi) = Inr (map (\<lambda>h. name h @ ''-'' @ version h @ ''-'' @ release h) mi)"
  by (simp add: rpm_def nvr_def foldl_snoc_map)

end
